theory Spec2Isabelle
  imports Main "HOL-Library.Word"
begin

section \<open>JavaScript values\<close>

text \<open>
  Values as the client sees them after JSON decoding, plus \<open>undefined\<close>. Numbers are
  the safe integers, of magnitude below \<open>2 ^ 53\<close>: those that decoding yields exactly
  and that \<open>to_string\<close> prints in decimal, as conversion to a string does. An object is
  the list of its own properties, read with \<open>map_of\<close>. Strings are lists of 8-bit
  characters, read as the code points U+0000 to U+00FF.
\<close>

datatype jsval =
    JUndefined
  | JNull
  | JBool bool
  | JNum int
  | JStr string
  | JArr "jsval list"
  | JObj "(string \<times> jsval) list"

fun typeof :: "jsval \<Rightarrow> string" where
  "typeof JUndefined = ''undefined''"
| "typeof JNull = ''object''"
| "typeof (JBool _) = ''boolean''"
| "typeof (JNum _) = ''number''"
| "typeof (JStr _) = ''string''"
| "typeof (JArr _) = ''object''"
| "typeof (JObj _) = ''object''"

fun truthy :: "jsval \<Rightarrow> bool" where
  "truthy JUndefined = False"
| "truthy JNull = False"
| "truthy (JBool b) = b"
| "truthy (JNum n) = (n \<noteq> 0)"
| "truthy (JStr s) = (s \<noteq> [])"
| "truthy (JArr _) = True"
| "truthy (JObj _) = True"

fun nullish :: "jsval \<Rightarrow> bool" where
  "nullish JUndefined = True"
| "nullish JNull = True"
| "nullish _ = False"

fun show_nat :: "nat \<Rightarrow> string" where
  "show_nat n = (if n < 10 then [''0123456789'' ! n]
                 else show_nat (n div 10) @ [''0123456789'' ! (n mod 10)])"

declare show_nat.simps [simp del]

definition show_int :: "int \<Rightarrow> string" where
  "show_int i = (if i < 0 then CHR ''-'' # show_nat (nat (- i)) else show_nat (nat i))"

fun join :: "string \<Rightarrow> string list \<Rightarrow> string" where
  "join sep [] = []"
| "join sep [s] = s"
| "join sep (s # t # ss) = s @ sep @ join sep (t # ss)"

fun to_string :: "jsval \<Rightarrow> string" where
  "to_string JUndefined = ''undefined''"
| "to_string JNull = ''null''"
| "to_string (JBool b) = (if b then ''true'' else ''false'')"
| "to_string (JNum n) = show_int n"
| "to_string (JStr s) = s"
| "to_string (JArr xs) = join '','' (map (\<lambda>x. if nullish x then [] else to_string x) xs)"
| "to_string (JObj _) = ''[object Object]''"

text \<open>\<open>String.prototype.startsWith\<close> and \<open>String.prototype.includes\<close>.\<close>

definition startsWith :: "string \<Rightarrow> string \<Rightarrow> bool" where
  "startsWith s p = (take (length p) s = p)"

fun str_includes :: "string \<Rightarrow> string \<Rightarrow> bool" where
  "str_includes [] p = (p = [])"
| "str_includes (c # cs) p = (startsWith (c # cs) p \<or> str_includes cs p)"

section \<open>Exceptions\<close>

text \<open>
  A thrown value is an exception class and a message. Every class that
  \<open>common/exceptions.ts\<close> derives from \<open>APIError\<close> is \<open>APIErrorClass\<close> applied to its
  class name; \<open>APIException\<close> is the root of the hierarchy and is not an \<open>APIError\<close>.
  \<open>ThrownString\<close> is a String object that was thrown: it is no error of any class, and
  its \<open>message\<close> property is \<open>undefined\<close>, which a template literal prints as such.
\<close>

datatype exn_class =
    APIErrorClass string
  | APIException
  | InvalidJSONResponseError
  | NetworkConnectionError
  | SyntaxError
  | TypeError
  | AbortError
  | Error

datatype exn = Exn exn_class string | ThrownString string

fun exn_message :: "exn \<Rightarrow> string" where
  "exn_message (Exn c m) = m"
| "exn_message (ThrownString s) = ''undefined''"

fun instanceof_APIError :: "exn \<Rightarrow> bool" where
  "instanceof_APIError (Exn (APIErrorClass _) _) = True"
| "instanceof_APIError _ = False"

fun instanceof_SyntaxError :: "exn \<Rightarrow> bool" where
  "instanceof_SyntaxError (Exn SyntaxError _) = True"
| "instanceof_SyntaxError _ = False"

section \<open>Error classifier (ErrorWrapper, ExceptionHandler)\<close>

text \<open>
  \<open>get_prop\<close> is the property read \<open>v[key]\<close>: it throws on \<open>null\<close> and \<open>undefined\<close>.
  The keys read by this module are error, result, output, warning, code and message;
  none of them is an own property of an array or of a primitive, which therefore
  yield \<open>undefined\<close>. \<open>opt_chain\<close> is \<open>v?.key\<close>.
\<close>

definition own_prop :: "(string \<times> jsval) list \<Rightarrow> string \<Rightarrow> jsval" where
  "own_prop kvs key = (case map_of kvs key of None \<Rightarrow> JUndefined | Some v \<Rightarrow> v)"

fun get_prop :: "jsval \<Rightarrow> string \<Rightarrow> exn + jsval" where
  "get_prop JUndefined key = Inl (Exn TypeError (''Cannot read properties of undefined (reading '' @ key @ '')''))"
| "get_prop JNull key = Inl (Exn TypeError (''Cannot read properties of null (reading '' @ key @ '')''))"
| "get_prop (JObj kvs) key = Inr (own_prop kvs key)"
| "get_prop _ key = Inr JUndefined"

definition opt_chain :: "jsval \<Rightarrow> string \<Rightarrow> exn + jsval" where
  "opt_chain v key = (if nullish v then Inr JUndefined else get_prop v key)"

fun getByPath :: "jsval \<Rightarrow> string list \<Rightarrow> exn + jsval" where
  "getByPath data [] = Inr data"
| "getByPath data (key # path) =
     (if typeof data = ''object'' \<and> data \<noteq> JNull then
        (case get_prop data key of
           Inl e \<Rightarrow> Inl e
         | Inr d \<Rightarrow> if d = JUndefined then Inr JNull else getByPath d path)
      else Inr JNull)"

definition errorPaths :: "string list list" where
  "errorPaths = [[], [''error''], [''result'', ''error''],
                 [''result'', ''output'', ''result'', ''error'']]"

definition warningPaths :: "string list list" where
  "warningPaths = [[''warning''], [''result'', ''warning''],
                   [''result'', ''output'', ''warning''],
                   [''result'', ''output'', ''result'', ''warning'']]"

definition bears_code_or_message :: "jsval \<Rightarrow> exn + bool" where
  "bears_code_or_message err =
     (if typeof err = ''object'' then
        (case opt_chain err ''code'' of
           Inl e \<Rightarrow> Inl e
         | Inr c \<Rightarrow>
             if truthy c then Inr True
             else (case opt_chain err ''message'' of
                     Inl e \<Rightarrow> Inl e
                   | Inr m \<Rightarrow> Inr (truthy m)))
      else Inr False)"

definition path_matches :: "jsval \<Rightarrow> string list \<Rightarrow> exn + bool" where
  "path_matches response path =
     (case getByPath response path of
        Inl e \<Rightarrow> Inl e
      | Inr err \<Rightarrow> bears_code_or_message err)"

fun some_path :: "jsval \<Rightarrow> string list list \<Rightarrow> exn + bool" where
  "some_path response [] = Inr False"
| "some_path response (path # paths) =
     (case path_matches response path of
        Inl e \<Rightarrow> Inl e
      | Inr b \<Rightarrow> if b then Inr True else some_path response paths)"

definition hasError :: "jsval \<Rightarrow> exn + bool" where
  "hasError response = some_path response errorPaths"

fun first_match :: "jsval \<Rightarrow> string list list \<Rightarrow> exn + jsval" where
  "first_match response [] = Inr (JObj [])"
| "first_match response (path # paths) =
     (case getByPath response path of
        Inl e \<Rightarrow> Inl e
      | Inr err \<Rightarrow>
          (case bears_code_or_message err of
             Inl e \<Rightarrow> Inl e
           | Inr b \<Rightarrow> if b then Inr err else first_match response paths))"

definition getError :: "jsval \<Rightarrow> exn + jsval" where
  "getError response = first_match response errorPaths"

definition nullish_or :: "jsval \<Rightarrow> jsval \<Rightarrow> jsval" where
  "nullish_or v d = (if nullish v then d else v)"

definition getErrorMessage :: "jsval \<Rightarrow> exn + jsval" where
  "getErrorMessage response =
     (case getError response of
        Inl e \<Rightarrow> Inl e
      | Inr err \<Rightarrow>
          (case get_prop err ''message'' of
             Inl e \<Rightarrow> Inl e
           | Inr m \<Rightarrow> Inr (nullish_or m (JStr ''No error message available.''))))"

definition getErrorCode :: "jsval \<Rightarrow> exn + jsval" where
  "getErrorCode response =
     (case getError response of
        Inl e \<Rightarrow> Inl e
      | Inr err \<Rightarrow>
          (case get_prop err ''code'' of
             Inl e \<Rightarrow> Inl e
           | Inr c \<Rightarrow> Inr (nullish_or c (JStr ''UNKNOWN_ERROR''))))"

definition hasWarning :: "jsval \<Rightarrow> exn + bool" where
  "hasWarning response = some_path response warningPaths"

fun all_matches :: "jsval \<Rightarrow> string list list \<Rightarrow> exn + jsval list" where
  "all_matches response [] = Inr []"
| "all_matches response (path # paths) =
     (case getByPath response path of
        Inl e \<Rightarrow> Inl e
      | Inr warn \<Rightarrow>
          (case bears_code_or_message warn of
             Inl e \<Rightarrow> Inl e
           | Inr b \<Rightarrow>
               (case all_matches response paths of
                  Inl e \<Rightarrow> Inl e
                | Inr ws \<Rightarrow> Inr (if b then warn # ws else ws))))"

definition getWarnings :: "jsval \<Rightarrow> exn + jsval list" where
  "getWarnings response = all_matches response warningPaths"

text \<open>
  In the words of the specification: an object that bears a code or a message,
  where bearing means that the field is truthy, as the test above reads it.
\<close>

definition error_object :: "jsval \<Rightarrow> bool" where
  "error_object v =
     (case v of
        JObj kvs \<Rightarrow> truthy (own_prop kvs ''code'') \<or> truthy (own_prop kvs ''message'')
      | _ \<Rightarrow> False)"

text \<open>The value a path resolves to; \<open>getByPath\<close> never throws, as shown below.\<close>

definition resolves :: "jsval \<Rightarrow> string list \<Rightarrow> jsval" where
  "resolves d path = (case getByPath d path of Inr v \<Rightarrow> v | Inl e \<Rightarrow> JUndefined)"

text \<open>Three envelopes used as examples below.\<close>

definition envelope_root_wins :: jsval where
  "envelope_root_wins =
     JObj [(''message'', JStr ''top''),
           (''error'', JObj [(''code'', JStr ''A'')]),
           (''result'', JObj [(''error'', JObj [(''code'', JStr ''B'')])])]"

definition envelope_two_errors :: jsval where
  "envelope_two_errors =
     JObj [(''error'', JObj [(''code'', JStr ''A'')]),
           (''result'', JObj [(''error'', JObj [(''code'', JStr ''B'')])])]"

definition envelope_empty_error :: jsval where
  "envelope_empty_error =
     JObj [(''error'', JObj [(''code'', JStr ''''), (''message'', JStr '''')])]"

text \<open>
  The table of \<open>utils/exceptionHandler.ts\<close>. It is an object literal, so a read
  with a key that is not its own finds what \<open>Object.prototype\<close> holds under that key.
  Under \<open>constructor\<close> that is \<open>Object\<close>, and \<open>new Object(text)\<close> is a String object,
  which is thrown as it is. No other inherited property is a constructor, so \<open>new\<close>
  throws a \<open>TypeError\<close> (with the message of V8). Only a key found nowhere gives
  \<open>APIException\<close>. \<open>raiseForResponse\<close> returns the warnings it prints when it does
  not throw.
\<close>

definition ERROR_CODE_MAP :: "(string \<times> exn_class) list" where
  "ERROR_CODE_MAP = map (\<lambda>(code, cls). (code, APIErrorClass cls))
   [(''INTERNAL_SERVER_ERROR'', ''InternalServerError''),
    (''NOT_FOUND'', ''NotFoundError''),
    (''POST_METHOD_ALLOWED'', ''PostMethodAllowedError''),
    (''MISSING_AUTHORIZATION_HEADER'', ''MissingAuthorizationHeaderError''),
    (''INVALID_AUTHORIZATION_HEADER'', ''InvalidAuthorizationHeaderError''),
    (''INVALID_FIELD'', ''InvalidFieldError''),
    (''MISSING_REQUIRED_FIELD'', ''MissingRequiredFieldError''),
    (''WRONG_TYPE_FIELD'', ''WrongTypeFieldError''),
    (''INVALID_DATA_KEY'', ''InvalidDataKeyError''),
    (''MISSING_REQUIRED_DATA_KEY'', ''MissingRequiredDataKeyError''),
    (''WRONG_TYPE_DATA_KEY'', ''WrongTypeDataKeyError''),
    (''WRONG_VALUE_DATA_KEY'', ''WrongValueDataKeyError''),
    (''INVALID_CREDENTIAL'', ''InvalidCredentialError''),
    (''FREE_PLAN_DISALLOWED'', ''FreePlanDisallwedError''),
    (''INSUFFICIENT_VCREDITS'', ''InsufficentVCreditsError''),
    (''INVALID_CALLBACK'', ''InvalidCallbackError''),
    (''UNVERIFIED_DOMAIN_CALLBACK'', ''UnverifiedDomainCallbackError''),
    (''NO_CONNECTOR_DEPENDENT_TASK'', ''NoConnectorDependentTaskError''),
    (''NOT_READY_DEPENDENT_TASK'', ''NotReadyDependentTaskError''),
    (''MISMATCH_VERSION_DEPENDENT_TASK'', ''MismatchVersionDependentTaskError''),
    (''MISMATCH_DEPENDENT_TASK'', ''MismatchDependentTaskError''),
    (''FILE_NOT_EXISTS'', ''FileNotExistsError''),
    (''DOWNLOAD_EXPIRED'', ''DownloadExpiredError''),
    (''ONLY_DEVELOPMENT_REQUEST'', ''OnlyDevelopmentRequestError''),
    (''INVALID_PARAMETER'', ''InvalidParameterError''),
    (''MISSING_REQUIRED_PARAMETER'', ''MissingRequiredParameterError''),
    (''WRONG_TYPE_PARAMETER'', ''WrongTypeParameterError''),
    (''WRONG_VALUE_PARAMETER'', ''WrongValueParameterError''),
    (''ONLY_DEVELOPMENT_FILE'', ''OnlyDevelopmentFileError''),
    (''NOT_VALID_EXTENSION'', ''NotValidExtensionError''),
    (''LIMIT_UPLOAD_SIZE'', ''LimitUploadSizeError''),
    (''EMPTY_FILE'', ''EmptyFileError''),
    (''WRONG_OUTPUT_FORMAT_STRUCTURE'', ''WrongOutputFormatStructureError''),
    (''INVALID_OUTPUT_FORMAT'', ''InvalidOutputFormatError''),
    (''WRONG_INPUT_FORMAT_STRUCTURE'', ''WrongInputFormatStructureError''),
    (''INVALID_INPUT_FORMAT'', ''InvalidInputFormatError''),
    (''NO_CONVERTER_INPUT_TO_OUTPUT'', ''NoConverterInputToOutputError''),
    (''NOT_MATCH_EXTENSION_AND_INPUT'', ''NotMatchExtensionAndInputError''),
    (''TOO_MANY_REQUESTS'', ''TooManyRequestsError''),
    (''FREE_APP_LIMITED'', ''FreeAppLimitedError''),
    (''DISABLED_FOR_FREE_APP'', ''DisabledForFreeAppError''),
    (''WRONG_FORMAT_STRUCTURE'', ''WrongFormatStructureError''),
    (''INVALID_FORMAT'', ''InvalidFormatError''),
    (''FAILED_CONVERT'', ''FailedConvertError'')]"

definition Object_prototype_keys :: "string list" where
  "Object_prototype_keys =
     [''constructor'', ''__defineGetter__'', ''__defineSetter__'', ''hasOwnProperty'',
      ''__lookupGetter__'', ''__lookupSetter__'', ''isPrototypeOf'', ''propertyIsEnumerable'',
      ''toString'', ''valueOf'', ''__proto__'', ''toLocaleString'']"

definition raiseForResponse :: "jsval \<Rightarrow> exn + jsval list" where
  "raiseForResponse response =
     (case hasError response of
        Inl e \<Rightarrow> Inl e
      | Inr True \<Rightarrow>
          (case getErrorCode response of
             Inl e \<Rightarrow> Inl e
           | Inr code \<Rightarrow>
               (case getErrorMessage response of
                  Inl e \<Rightarrow> Inl e
                | Inr message \<Rightarrow>
                    (let text = ''['' @ to_string code @ ''] '' @ to_string message
                     in Inl (case map_of ERROR_CODE_MAP (to_string code) of
                               Some cls \<Rightarrow> Exn cls text
                             | None \<Rightarrow>
                                 if to_string code = ''constructor'' then ThrownString text
                                 else if to_string code \<in> set Object_prototype_keys
                                 then Exn TypeError ''ExceptionClass is not a constructor''
                                 else Exn APIException text))))
      | Inr False \<Rightarrow>
          (case hasWarning response of
             Inl e \<Rightarrow> Inl e
           | Inr True \<Rightarrow> getWarnings response
           | Inr False \<Rightarrow> Inr []))"

section \<open>Format canonicalisation (utils/misc.ts)\<close>

text \<open>
  \<open>trim\<close> removes the white space and line terminators of the Latin-1 range from both
  ends; \<open>toLowerCase\<close> maps A-Z and the upper-case letters U+00C0 to U+00DE.
\<close>

definition isWhiteSpace :: "char \<Rightarrow> bool" where
  "isWhiteSpace c = (let n = (of_char c :: nat) in (9 \<le> n \<and> n \<le> 13) \<or> n = 32 \<or> n = 160)"

definition trim :: "string \<Rightarrow> string" where
  "trim s = rev (dropWhile isWhiteSpace (rev (dropWhile isWhiteSpace s)))"

definition toLowerCase_char :: "char \<Rightarrow> char" where
  "toLowerCase_char c =
     (let n = (of_char c :: nat)
      in if (65 \<le> n \<and> n \<le> 90) \<or> (192 \<le> n \<and> n \<le> 222 \<and> n \<noteq> 215)
         then char_of (n + 32) else c)"

definition toLowerCase :: "string \<Rightarrow> string" where
  "toLowerCase s = map toLowerCase_char s"

definition canonicalizeFormat :: "string option \<Rightarrow> string option" where
  "canonicalizeFormat formatName =
     (case formatName of
        None \<Rightarrow> None
      | Some f0 \<Rightarrow>
          if f0 = [] then None
          else let f1 = toLowerCase (trim f0);
                   f2 = (if startsWith f1 ''.'' then drop 1 f1 else f1)
               in if f2 = [] then None else Some f2)"

section \<open>Transport layer (api/interface.ts)\<close>

text \<open>
  The settings read through \<open>Config.get\<close>, with the defaults of \<open>config/settings.ts\<close>.
  \<open>request_timeoutMs\<close> is the part of \<open>Interface.request\<close> that normalises the
  endpoint and selects \<open>timeoutMs\<close>; in JavaScript the conditional operator binds
  weaker than \<open>??\<close>, so the coalesced value is the tested condition. The rest of
  \<open>request\<close> (URL, form body, headers, fetch) is the environment: \<open>request k\<close> is
  how the call of attempt \<open>k\<close> settles. \<open>sendRequest\<close> returns the waits it made, in
  milliseconds, with its result.
\<close>

record config =
  cfg_retries :: int
  cfg_defaultTimeout :: int
  cfg_longTimeout :: int
  cfg_streamChunkSize :: int

definition DEFAULT_CONFIG :: config where
  "DEFAULT_CONFIG = \<lparr> cfg_retries = 5, cfg_defaultTimeout = 30 * 1000,
                       cfg_longTimeout = 300 * 1000, cfg_streamChunkSize = 4096 \<rparr>"

definition request_timeoutMs :: "config \<Rightarrow> string \<Rightarrow> int option \<Rightarrow> int" where
  "request_timeoutMs cfg endpoint0 timeout =
     (let endpoint = (if \<not> startsWith endpoint0 ''/'' then ''/'' @ endpoint0 else endpoint0);
          tested = (case timeout of
                      Some t \<Rightarrow> JNum t
                    | None \<Rightarrow> JBool (endpoint \<in> set [''/upload/file'', ''/download/url/get'']))
      in if truthy tested then cfg_longTimeout cfg else cfg_defaultTimeout cfg)"

record response =
  content_type :: "string option"
  json :: "exn + jsval"

datatype settled = Rejected exn | Fulfilled response

datatype reply = Parsed jsval | Raw response

definition attempt_body :: "settled \<Rightarrow> exn + reply" where
  "attempt_body outcome =
     (case outcome of
        Rejected e \<Rightarrow> Inl e
      | Fulfilled resp \<Rightarrow>
          (let contentType = (case content_type resp of
                                None \<Rightarrow> []
                              | Some h \<Rightarrow> if h = [] then [] else h)
           in if str_includes contentType ''application/json'' then
                (case json resp of
                   Inl e \<Rightarrow> Inl e
                 | Inr jsonResponse \<Rightarrow>
                     (case raiseForResponse jsonResponse of
                        Inl e \<Rightarrow> Inl e
                      | Inr warnings \<Rightarrow> Inr (Parsed jsonResponse)))
              else Inr (Raw resp)))"

function sendRequest_loop ::
  "(nat \<Rightarrow> settled) \<Rightarrow> int \<Rightarrow> nat \<Rightarrow> int list \<Rightarrow> int list \<times> (exn + reply)" where
  "sendRequest_loop request retries attempt waits =
     (if int attempt \<le> retries then
        (case attempt_body (request attempt) of
           Inr r \<Rightarrow> (waits, Inr r)
         | Inl error \<Rightarrow>
             if instanceof_APIError error then (waits, Inl error)
             else if instanceof_SyntaxError error then
               (waits, Inl (Exn InvalidJSONResponseError (exn_message error)))
             else if int attempt < retries then
               sendRequest_loop request retries (attempt + 1) (waits @ [2 ^ attempt * 1000])
             else
               (waits, Inl (Exn NetworkConnectionError
                  (''All '' @ show_int retries @ '' retries failed! Error: '' @ exn_message error))))
      else (waits, Inl (Exn NetworkConnectionError ''Request failed without exception.'')))"
  by pat_completeness auto
termination
  by (relation "measure (\<lambda>(request, retries, attempt, waits). nat (retries + 1 - int attempt))") auto

definition sendRequest :: "config \<Rightarrow> (nat \<Rightarrow> settled) \<Rightarrow> int list \<times> (exn + reply)" where
  "sendRequest cfg request = sendRequest_loop request (cfg_retries cfg) 1 []"

text \<open>
  A transport failure is a rejection of \<open>request\<close> by the network layer: an abort on
  timeout or a failed fetch, which is neither an \<open>APIError\<close> nor a \<open>SyntaxError\<close>.
\<close>

definition transport_failure :: "exn \<Rightarrow> bool" where
  "transport_failure e = (\<not> instanceof_APIError e \<and> \<not> instanceof_SyntaxError e)"

text \<open>Responses and transports used as examples below.\<close>

definition unknown_code_response :: response where
  "unknown_code_response =
     \<lparr> content_type = Some ''application/json'',
       json = Inr (JObj [(''error'', JObj [(''code'', JStr ''BRAND_NEW_CODE''),
                                             (''message'', JStr ''not in the table'')])]) \<rparr>"

definition known_code_response :: response where
  "known_code_response =
     \<lparr> content_type = Some ''application/json'',
       json = Inr (JObj [(''error'', JObj [(''code'', JStr ''NOT_FOUND''),
                                             (''message'', JStr ''gone'')])]) \<rparr>"

definition ok_response :: response where
  "ok_response =
     \<lparr> content_type = Some ''application/json; charset=utf-8'',
       json = Inr (JObj [(''result'', JObj [(''output'', JObj [(''connector'', JStr ''abc'')])])]) \<rparr>"

definition flaky_request :: "nat \<Rightarrow> settled" where
  "flaky_request attempt =
     (if attempt < 3 then Rejected (Exn TypeError ''fetch failed'') else Fulfilled ok_response)"

definition dead_request :: "nat \<Rightarrow> settled" where
  "dead_request attempt = Rejected (Exn TypeError ''fetch failed'')"

section \<open>Workflow wait loop (api/converter.ts)\<close>

text \<open>
  \<open>task k\<close> is the task status that the \<open>k\<close>-th status query reports; \<open>done()\<close> is
  true when it is \<open>completed\<close>. The loop records the argument of every \<open>sleepFn\<close> call.
  A run that polls forever has the value \<open>None\<close>.
\<close>

definition SLEEP_PATTERN :: "jsval list" where
  "SLEEP_PATTERN = [JNum 10, JNum 10, JNum 15]"

definition index_or_undefined :: "jsval list \<Rightarrow> nat \<Rightarrow> jsval" where
  "index_or_undefined xs i = (if i < length xs then xs ! i else JUndefined)"

partial_function (option) wait_loop ::
  "(nat \<Rightarrow> string) \<Rightarrow> jsval list \<Rightarrow> nat \<Rightarrow> nat \<Rightarrow> int list \<Rightarrow> (int list \<times> (exn + unit)) option" where
  "wait_loop task pollIntervals poll step slept =
     (if task poll = ''completed'' then Some (slept, Inr ())
      else
        (let interval = index_or_undefined pollIntervals step
         in case interval of
              JNum n \<Rightarrow>
                wait_loop task pollIntervals (poll + 1)
                  (if int step < int (length pollIntervals) - 1 then step + 1 else step)
                  (slept @ [n * 1000])
            | _ \<Rightarrow>
                Some (slept, Inl (Exn Error
                  (''pollIntervals['' @ show_nat step @ ''] is not a valid number: ''
                     @ to_string interval)))))"

declare wait_loop.simps [code]

definition wait :: "(nat \<Rightarrow> string) \<Rightarrow> jsval list \<Rightarrow> (int list \<times> (exn + unit)) option" where
  "wait task pollIntervals = wait_loop task pollIntervals 0 0 []"

text \<open>The index the loop reads at its \<open>j\<close>-th iteration, and two task histories.\<close>

definition clamped :: "'a list \<Rightarrow> nat \<Rightarrow> nat" where
  "clamped xs j = min j (length xs - 1)"

definition five_polls :: "nat \<Rightarrow> string" where
  "five_polls k = (if k < 5 then ''running'' else ''completed'')"

definition never_completed :: "nat \<Rightarrow> string" where
  "never_completed k = ''running''"

section \<open>Chunked stream pipeline (utils/streamChunker.ts)\<close>

text \<open>
  A source stream is the finite list of the chunks it delivers: \<open>Text\<close> for a string,
  which is encoded as UTF-8, and \<open>Binary\<close> for a byte array, whose bytes are taken as
  they are: a Buffer from a Node stream, a Uint8Array or an ArrayBuffer from a browser
  stream. \<open>subarray\<close> and
  \<open>slice\<close> resolve their indices as typed arrays do: a negative index counts from the
  end, and both ends are clamped to the buffer. The collector keeps every chunk it
  is given, in order. A slicing loop that never ends has the value \<open>None\<close>.
\<close>

type_synonym byte = "8 word"
type_synonym bytes = "byte list"

datatype stream_chunk = Text string | Binary bytes

definition utf8_char :: "char \<Rightarrow> bytes" where
  "utf8_char c =
     (let n = (of_char c :: nat)
      in if n < 128 then [of_nat n] else [of_nat (192 + n div 64), of_nat (128 + n mod 64)])"

definition utf8_encode :: "string \<Rightarrow> bytes" where
  "utf8_encode s = concat (map utf8_char s)"

fun incoming :: "stream_chunk \<Rightarrow> bytes" where
  "incoming (Text s) = utf8_encode s"
| "incoming (Binary b) = b"

definition rel_index :: "nat \<Rightarrow> int \<Rightarrow> nat" where
  "rel_index len i = (if i < 0 then nat (max (int len + i) 0) else min (nat i) len)"

definition subarray :: "bytes \<Rightarrow> int \<Rightarrow> int option \<Rightarrow> bytes" where
  "subarray buf begin end =
     (let len = length buf;
          b = rel_index len begin;
          e = (case end of None \<Rightarrow> len | Some x \<Rightarrow> rel_index len x)
      in take (e - b) (drop b buf))"

definition slice :: "bytes \<Rightarrow> int \<Rightarrow> int option \<Rightarrow> bytes" where
  "slice buf begin end =
     (let len = length buf;
          b = rel_index len begin;
          e = (case end of None \<Rightarrow> len | Some x \<Rightarrow> rel_index len x)
      in take (e - b) (drop b buf))"

datatype collector = WritableSink "bytes list" | ArrayCollector "bytes list"

fun emit :: "collector \<Rightarrow> bytes \<Rightarrow> collector" where
  "emit (WritableSink written) data = WritableSink (written @ [data])"
| "emit (ArrayCollector pushed) data = ArrayCollector (pushed @ [data])"

fun emitted :: "collector \<Rightarrow> bytes list" where
  "emitted (WritableSink written) = written"
| "emitted (ArrayCollector pushed) = pushed"

partial_function (option) node_slice_loop ::
  "int \<Rightarrow> bytes \<Rightarrow> collector \<Rightarrow> (bytes \<times> collector) option" where
  "node_slice_loop chunkSize buffer col =
     (if int (length buffer) \<ge> chunkSize then
        node_slice_loop chunkSize (subarray buffer chunkSize None)
          (emit col (subarray buffer 0 (Some chunkSize)))
      else Some (buffer, col))"

declare node_slice_loop.simps [code]

fun node_for_await ::
  "int \<Rightarrow> stream_chunk list \<Rightarrow> bytes \<Rightarrow> collector \<Rightarrow> (bytes \<times> collector) option" where
  "node_for_await chunkSize [] buffer col = Some (buffer, col)"
| "node_for_await chunkSize (chunk # rest) buffer col =
     (case node_slice_loop chunkSize (buffer @ incoming chunk) col of
        None \<Rightarrow> None
      | Some (buffer', col') \<Rightarrow> node_for_await chunkSize rest buffer' col')"

definition processNodeStream :: "stream_chunk list \<Rightarrow> int \<Rightarrow> collector \<Rightarrow> collector option" where
  "processNodeStream stream chunkSize col =
     (case node_for_await chunkSize stream [] col of
        None \<Rightarrow> None
      | Some (buffer, col') \<Rightarrow> Some (if length buffer > 0 then emit col' buffer else col'))"

partial_function (option) browser_slice_loop ::
  "int \<Rightarrow> bytes \<Rightarrow> collector \<Rightarrow> (bytes \<times> collector) option" where
  "browser_slice_loop chunkSize buffer col =
     (if int (length buffer) \<ge> chunkSize then
        browser_slice_loop chunkSize (slice buffer chunkSize None)
          (emit col (slice buffer 0 (Some chunkSize)))
      else Some (buffer, col))"

declare browser_slice_loop.simps [code]

fun browser_read_loop ::
  "int \<Rightarrow> stream_chunk list \<Rightarrow> bytes \<Rightarrow> collector \<Rightarrow> (bytes \<times> collector) option" where
  "browser_read_loop chunkSize [] buffer col = Some (buffer, col)"
| "browser_read_loop chunkSize (val # rest) buffer col =
     (case browser_slice_loop chunkSize (buffer @ incoming val) col of
        None \<Rightarrow> None
      | Some (buffer', col') \<Rightarrow> browser_read_loop chunkSize rest buffer' col')"

definition processBrowserStream :: "stream_chunk list \<Rightarrow> int \<Rightarrow> collector \<Rightarrow> collector option" where
  "processBrowserStream stream chunkSize col =
     (case browser_read_loop chunkSize stream [] col of
        None \<Rightarrow> None
      | Some (buffer, col') \<Rightarrow> Some (if length buffer > 0 then emit col' buffer else col'))"

datatype source = NodeReadable "stream_chunk list" | BrowserReadable "stream_chunk list"

fun process :: "source \<Rightarrow> int \<Rightarrow> collector \<Rightarrow> collector option" where
  "process (NodeReadable stream) chunkSize col = processNodeStream stream chunkSize col"
| "process (BrowserReadable stream) chunkSize col = processBrowserStream stream chunkSize col"

text \<open>
  What a source delivers in all, a collector after a run of emissions, and the
  emissions of one run: the full chunks followed by the remainder when it is not empty.
\<close>

fun delivered :: "source \<Rightarrow> stream_chunk list" where
  "delivered (NodeReadable stream) = stream"
| "delivered (BrowserReadable stream) = stream"

definition source_bytes :: "source \<Rightarrow> bytes" where
  "source_bytes src = concat (map incoming (delivered src))"

definition emit_all :: "collector \<Rightarrow> bytes list \<Rightarrow> collector" where
  "emit_all col chunks = foldl emit col chunks"

definition with_tail :: "bytes list \<Rightarrow> bytes \<Rightarrow> bytes list" where
  "with_tail out r = (if length r > 0 then out @ [r] else out)"

section \<open>Format canonicalisation: proofs\<close>

lemma lower_idem: "toLowerCase_char (toLowerCase_char c) = toLowerCase_char c"
  by (auto simp: toLowerCase_char_def Let_def)

lemma lower_ws: "isWhiteSpace (toLowerCase_char c) = isWhiteSpace c"
  by (auto simp: toLowerCase_char_def isWhiteSpace_def Let_def)

lemma dropWhile_last_keep:
  "s \<noteq> [] \<Longrightarrow> \<not> P (last s) \<Longrightarrow> dropWhile P s \<noteq> [] \<and> last (dropWhile P s) = last s"
  by (induction s) (auto split: if_splits)

lemma trim_no_trailing:
  "s \<noteq> [] \<Longrightarrow> \<not> isWhiteSpace (last s) \<Longrightarrow> trim s = dropWhile isWhiteSpace s"
proof -
  assume a: "s \<noteq> []" "\<not> isWhiteSpace (last s)"
  let ?z = "dropWhile isWhiteSpace s"
  from dropWhile_last_keep[of s isWhiteSpace] a have z: "?z \<noteq> []" "last ?z = last s" by auto
  then have "\<not> isWhiteSpace (hd (rev ?z))" using a(2) by (simp add: hd_rev)
  then have "dropWhile isWhiteSpace (rev ?z) = rev ?z" using z(1)
    by (cases "rev ?z") auto
  then show ?thesis by (simp add: trim_def)
qed

lemma trim_ends:
  assumes "trim s \<noteq> []"
  shows "\<not> isWhiteSpace (hd (trim s))" and "\<not> isWhiteSpace (last (trim s))"
proof -
  let ?z = "dropWhile isWhiteSpace s"
  let ?w = "dropWhile isWhiteSpace (rev ?z)"
  from assms have w: "?w \<noteq> []" by (simp add: trim_def)
  then have hw: "\<not> isWhiteSpace (hd ?w)" by (rule hd_dropWhile)
  then show "\<not> isWhiteSpace (last (trim s))" using w by (simp add: trim_def last_rev)
  have z: "?z \<noteq> []"
  proof
    assume "?z = []"
    then have "?w = []" by (metis dropWhile.simps(1) rev.simps(1))
    with w show False by simp
  qed
  then have hz: "\<not> isWhiteSpace (hd ?z)" by (rule hd_dropWhile)
  have "\<exists>p. rev ?z = p @ ?w" by (metis takeWhile_dropWhile_id)
  then obtain p where "rev ?z = p @ ?w" ..
  then have "?z = rev ?w @ rev p" by (metis rev_append rev_rev_ident)
  then have "hd (rev ?w) = hd ?z" using w by (metis hd_append2 rev_is_Nil_conv)
  then show "\<not> isWhiteSpace (hd (trim s))" using hz by (simp add: trim_def)
qed

lemma length_trim_le: "length (trim s) \<le> length s"
  unfolding trim_def
  by (metis length_dropWhile_le length_rev order_trans)

lemma canonical_shape:
  assumes "canonicalizeFormat x = Some y"
  shows "y \<noteq> []" and "\<not> isWhiteSpace (last y)" and "toLowerCase y = y"
proof -
  from assms obtain f0 where x: "x = Some f0" "f0 \<noteq> []"
    by (cases x) (auto simp: canonicalizeFormat_def split: if_splits)
  define f1 where "f1 = toLowerCase (trim f0)"
  from assms x have y: "y = (if startsWith f1 ''.'' then drop 1 f1 else f1)" and ne: "y \<noteq> []"
    by (auto simp: canonicalizeFormat_def Let_def f1_def split: if_splits)
  show "y \<noteq> []" by (rule ne)
  have f1ne: "f1 \<noteq> []" using y ne by (auto split: if_splits)
  then have tne: "trim f0 \<noteq> []" by (simp add: f1_def toLowerCase_def)
  have "last f1 = toLowerCase_char (last (trim f0))"
    using tne by (simp add: f1_def toLowerCase_def last_map)
  then have "\<not> isWhiteSpace (last f1)" using trim_ends(2)[OF tne] by (simp add: lower_ws)
  moreover have "last y = last f1" using y ne by (auto simp: last_drop split: if_splits)
  ultimately show "\<not> isWhiteSpace (last y)" by simp
  have "toLowerCase f1 = f1" by (simp add: f1_def toLowerCase_def lower_idem)
  then show "toLowerCase y = y" using y by (auto simp: toLowerCase_def drop_map[symmetric] split: if_splits)
qed

lemma canonical_fixed:
  assumes "canonicalizeFormat x = Some y" "\<not> startsWith y ''.''" "\<not> isWhiteSpace (hd y)"
  shows "canonicalizeFormat (Some y) = Some y"
proof -
  note sh = canonical_shape[OF assms(1)]
  have "trim y = dropWhile isWhiteSpace y" using sh by (simp add: trim_no_trailing)
  also have "\<dots> = y" using assms(3) sh(1) by (cases y) auto
  finally have "trim y = y" .
  then show ?thesis using sh assms(2) by (simp add: canonicalizeFormat_def Let_def)
qed

lemma canonical_length:
  "canonicalizeFormat (Some s) = Some r \<Longrightarrow> length r \<le> length (trim s)"
  by (auto simp: canonicalizeFormat_def Let_def toLowerCase_def split: if_splits)

lemma canonical_moved:
  assumes "canonicalizeFormat x = Some y" "startsWith y ''.'' \<or> isWhiteSpace (hd y)"
  shows "canonicalizeFormat (Some y) \<noteq> Some y"
proof
  assume fp: "canonicalizeFormat (Some y) = Some y"
  note sh = canonical_shape[OF assms(1)]
  have t: "trim y = dropWhile isWhiteSpace y" using sh by (simp add: trim_no_trailing)
  from assms(2) show False
  proof
    assume d: "startsWith y ''.''"
    then have hd: "hd y = CHR ''.''" using sh(1) by (cases y) (auto simp: startsWith_def)
    have "\<not> isWhiteSpace (CHR ''.'')" by (simp add: isWhiteSpace_def)
    then have "trim y = y" using t hd sh(1) by (cases y) auto
    then have "canonicalizeFormat (Some y) = (if drop 1 y = [] then None else Some (drop 1 y))"
      using sh d by (simp add: canonicalizeFormat_def Let_def)
    then have "y = drop 1 y" using fp by (auto split: if_splits)
    then have "length y = length (drop 1 y)" by (rule arg_cong)
    then show False using sh(1) by (cases y) auto
  next
    assume w: "isWhiteSpace (hd y)"
    then have "length (trim y) < length y" using t sh(1)
      by (cases y) (auto simp: le_imp_less_Suc length_dropWhile_le)
    then show False using canonical_length[OF fp] by simp
  qed
qed

text \<open>
  Claim C4, as amended. Canonicalising twice gives the same result as canonicalising
  once exactly when the first result is absent or begins with neither a dot nor white
  space: only one leading dot is removed, and the white space that followed it stays.
  The three examples of the documentation hold: \<open>.PDF\<close> gives \<open>pdf\<close>, \<open>HTML\<close> between
  blanks gives \<open>html\<close>, and an absent format stays absent.
\<close>

theorem canonicalizeFormat_idempotent_iff:
  "(canonicalizeFormat (canonicalizeFormat x) = canonicalizeFormat x \<longleftrightarrow>
      (case canonicalizeFormat x of
         None \<Rightarrow> True
       | Some y \<Rightarrow> \<not> startsWith y ''.'' \<and> \<not> isWhiteSpace (hd y)))
   \<and> canonicalizeFormat (Some ''.PDF'') = Some ''pdf''
   \<and> canonicalizeFormat (Some ''  HTML '') = Some ''html''
   \<and> canonicalizeFormat None = None"
proof (intro conjI)
  show "canonicalizeFormat (canonicalizeFormat x) = canonicalizeFormat x \<longleftrightarrow>
      (case canonicalizeFormat x of
         None \<Rightarrow> True
       | Some y \<Rightarrow> \<not> startsWith y ''.'' \<and> \<not> isWhiteSpace (hd y))"
  proof (cases "canonicalizeFormat x")
    case None
    then show ?thesis by (simp add: canonicalizeFormat_def)
  next
    case (Some y)
    then show ?thesis using canonical_fixed[OF Some] canonical_moved[OF Some] by auto
  qed
  show "canonicalizeFormat (Some ''.PDF'') = Some ''pdf''" by code_simp
  show "canonicalizeFormat (Some ''  HTML '') = Some ''html''" by code_simp
  show "canonicalizeFormat None = None" by (simp add: canonicalizeFormat_def)
qed

theorem canonicalizeFormat_idempotent_iff_witness:
  "canonicalizeFormat (canonicalizeFormat (Some '' .Svg:Font '')) = canonicalizeFormat (Some '' .Svg:Font '')
   \<and> canonicalizeFormat (Some '' .Svg:Font '') = Some ''svg:font''"
proof -
  have r: "canonicalizeFormat (Some '' .Svg:Font '') = Some ''svg:font''" by code_simp
  have "\<not> startsWith ''svg:font'' ''.'' \<and> \<not> isWhiteSpace (hd ''svg:font'')" by code_simp
  then show ?thesis
    using canonicalizeFormat_idempotent_iff [of "Some '' .Svg:Font ''"] r by simp
qed

text \<open>
  Claim C4 as stated fails: two leading dots are reduced to one by the first call and
  to none by the second.
\<close>

theorem canonicalizeFormat_not_idempotent:
  "canonicalizeFormat (canonicalizeFormat (Some ''..pdf'')) \<noteq> canonicalizeFormat (Some ''..pdf'')"
  by code_simp

section \<open>Chunked stream pipeline: proofs\<close>

lemma emitted_emit: "emitted (emit col x) = emitted col @ [x]"
  by (cases col) auto

lemma emitted_emit_all: "emitted (emit_all col out) = emitted col @ out"
  unfolding emit_all_def
  by (induction out arbitrary: col) (auto simp: emitted_emit)

lemma subarray_head: "1 \<le> c \<Longrightarrow> subarray buf 0 (Some c) = take (nat c) buf"
  by (auto simp: subarray_def rel_index_def Let_def min_def)

lemma subarray_rest: "1 \<le> c \<Longrightarrow> subarray buf c None = drop (nat c) buf"
  by (auto simp: subarray_def rel_index_def Let_def min_def)

lemma slice_head: "1 \<le> c \<Longrightarrow> slice buf 0 (Some c) = take (nat c) buf"
  by (auto simp: slice_def rel_index_def Let_def min_def)

lemma slice_rest: "1 \<le> c \<Longrightarrow> slice buf c None = drop (nat c) buf"
  by (auto simp: slice_def rel_index_def Let_def min_def)

lemma length_concat_uniform:
  "\<forall>x\<in>set out. length x = C \<Longrightarrow> length (concat out) = C * length out"
  by (induction out) auto

lemma with_tail_concat: "concat (with_tail out r) = concat out @ r"
  by (simp add: with_tail_def)

lemma with_tail_count:
  assumes "0 < C" "\<forall>x\<in>set out. length x = C" "length r < C"
  shows "length (with_tail out r) = (length (concat out @ r) + C - 1) div C"
proof -
  have n: "length (concat out @ r) = C * length out + length r"
    using assms(2) by (simp add: length_concat_uniform)
  show ?thesis
  proof (cases "r = []")
    case True
    have "(C * length out + C - 1) div C = length out"
      using assms(1) by (intro div_nat_eqI) auto
    with True n show ?thesis by (simp add: with_tail_def)
  next
    case False
    then obtain m where m: "length r = Suc m" by (cases r) auto
    have "(C * length out + Suc m + C - 1) div C = Suc (length out)"
      using assms(1,3) m by (intro div_nat_eqI) auto
    with False n m show ?thesis by (simp add: with_tail_def)
  qed
qed

lemma with_tail_full:
  assumes "\<forall>x\<in>set out. length x = C" "Suc i < length (with_tail out r)"
  shows "length (with_tail out r ! i) = C"
proof -
  have "i < length out" using assms(2) by (auto simp: with_tail_def split: if_splits)
  then show ?thesis using assms(1) by (auto simp: with_tail_def nth_append)
qed


subsection \<open>Node streams\<close>

lemma node_slice_loop_total:
  assumes c: "1 \<le> c"
  shows "\<exists>r out. node_slice_loop c buf col = Some (r, emit_all col out)
           \<and> concat out @ r = buf \<and> (\<forall>x\<in>set out. int (length x) = c) \<and> int (length r) < c"
proof (induction "length buf" arbitrary: buf col rule: less_induct)
  case less
  show ?case
  proof (cases "int (length buf) \<ge> c")
    case False
    then have "node_slice_loop c buf col = Some (buf, emit_all col [])"
      by (simp add: node_slice_loop.simps[of c buf col] emit_all_def)
    with False show ?thesis by (intro exI[of _ buf] exI[of _ "[]"]) simp
  next
    case True
    let ?hd = "take (nat c) buf" and ?tl = "drop (nat c) buf"
    have shorter: "length ?tl < length buf" using c True by auto
    from less[OF shorter, of "emit col ?hd"] obtain r out where
      ih: "node_slice_loop c ?tl (emit col ?hd) = Some (r, emit_all (emit col ?hd) out)"
          "concat out @ r = ?tl" "\<forall>x\<in>set out. int (length x) = c" "int (length r) < c"
      by blast
    have step: "node_slice_loop c buf col = node_slice_loop c ?tl (emit col ?hd)"
      using True c by (simp add: node_slice_loop.simps[of c buf col] subarray_head subarray_rest)
    have len: "int (length ?hd) = c" using True c by auto
    have "node_slice_loop c buf col = Some (r, emit_all col (?hd # out))"
      using step ih(1) by (simp add: emit_all_def)
    moreover have "concat (?hd # out) @ r = buf" using ih(2) by simp
    moreover have "\<forall>x\<in>set (?hd # out). int (length x) = c" using ih(3) len by simp
    ultimately show ?thesis using ih(4) by blast
  qed
qed

lemma node_slice_loop_no_result:
  assumes "node_slice_loop c buf col = Some y"
  shows "0 < c"
proof (rule node_slice_loop.raw_induct[OF _ assms])
  fix loop :: "int \<Rightarrow> bytes \<Rightarrow> collector \<Rightarrow> (bytes \<times> collector) option"
    and chunkSize buffer col y
  assume ih: "\<And>chunkSize buffer col y. loop chunkSize buffer col = Some y \<Longrightarrow> 0 < chunkSize"
    and body: "(if chunkSize \<le> int (length buffer)
                then loop chunkSize (subarray buffer chunkSize None)
                       (emit col (subarray buffer 0 (Some chunkSize)))
                else Some (buffer, col)) = Some y"
  show "0 < chunkSize"
  proof (cases "chunkSize \<le> int (length buffer)")
    case True
    with body ih show ?thesis by simp
  next
    case False
    then show ?thesis by simp
  qed
qed

lemma node_slice_loop_diverges: "c \<le> 0 \<Longrightarrow> node_slice_loop c buf col = None"
  using node_slice_loop_no_result[of c buf col] by (cases "node_slice_loop c buf col") force+

lemma node_for_await_total:
  assumes c: "1 \<le> c"
  shows "int (length buffer) < c \<Longrightarrow>
         \<exists>r out. node_for_await c stream buffer col = Some (r, emit_all col out)
           \<and> concat out @ r = buffer @ concat (map incoming stream)
           \<and> (\<forall>x\<in>set out. int (length x) = c) \<and> int (length r) < c"
proof (induction stream arbitrary: buffer col)
  case Nil
  then show ?case by (intro exI[of _ buffer] exI[of _ "[]"]) (simp add: emit_all_def)
next
  case (Cons chunk rest)
  from node_slice_loop_total[OF c, of "buffer @ incoming chunk" col] obtain r1 out1 where
    s1: "node_slice_loop c (buffer @ incoming chunk) col = Some (r1, emit_all col out1)"
        "concat out1 @ r1 = buffer @ incoming chunk"
        "\<forall>x\<in>set out1. int (length x) = c" "int (length r1) < c"
    by blast
  from Cons.IH[OF s1(4), of "emit_all col out1"] obtain r out2 where
    s2: "node_for_await c rest r1 (emit_all col out1) = Some (r, emit_all (emit_all col out1) out2)"
        "concat out2 @ r = r1 @ concat (map incoming rest)"
        "\<forall>x\<in>set out2. int (length x) = c" "int (length r) < c"
    by blast
  have "node_for_await c (chunk # rest) buffer col = Some (r, emit_all col (out1 @ out2))"
    using s1(1) s2(1) by (simp add: emit_all_def)
  moreover have "concat (out1 @ out2) @ r = buffer @ concat (map incoming (chunk # rest))"
    using s1(2) s2(2) by (metis append.assoc concat.simps(2) concat_append list.simps(9))
  moreover have "\<forall>x\<in>set (out1 @ out2). int (length x) = c" using s1(3) s2(3) by auto
  ultimately show ?case using s2(4) by blast
qed

lemma processNodeStream_result:
  assumes c: "1 \<le> c"
  shows "\<exists>out r. processNodeStream stream c col = Some (emit_all col (with_tail out r))
           \<and> concat out @ r = concat (map incoming stream)
           \<and> (\<forall>x\<in>set out. int (length x) = c) \<and> int (length r) < c"
proof -
  have "int (length ([] :: bytes)) < c" using c by simp
  from node_for_await_total[OF c this, of stream col] obtain r out where
    s: "node_for_await c stream [] col = Some (r, emit_all col out)"
       "concat out @ r = [] @ concat (map incoming stream)"
       "\<forall>x\<in>set out. int (length x) = c" "int (length r) < c"
    by blast
  have "processNodeStream stream c col = Some (emit_all col (with_tail out r))"
    using s(1) by (simp add: processNodeStream_def with_tail_def emit_all_def)
  then show ?thesis using s(2-4) by auto
qed

lemma processNodeStream_diverges:
  "c \<le> 0 \<Longrightarrow> stream \<noteq> [] \<Longrightarrow> processNodeStream stream c col = None"
  by (cases stream) (simp_all add: processNodeStream_def node_slice_loop_diverges)


subsection \<open>Browser streams\<close>

lemma browser_slice_loop_total:
  assumes c: "1 \<le> c"
  shows "\<exists>r out. browser_slice_loop c buf col = Some (r, emit_all col out)
           \<and> concat out @ r = buf \<and> (\<forall>x\<in>set out. int (length x) = c) \<and> int (length r) < c"
proof (induction "length buf" arbitrary: buf col rule: less_induct)
  case less
  show ?case
  proof (cases "int (length buf) \<ge> c")
    case False
    then have "browser_slice_loop c buf col = Some (buf, emit_all col [])"
      by (simp add: browser_slice_loop.simps[of c buf col] emit_all_def)
    with False show ?thesis by (intro exI[of _ buf] exI[of _ "[]"]) simp
  next
    case True
    let ?hd = "take (nat c) buf" and ?tl = "drop (nat c) buf"
    have shorter: "length ?tl < length buf" using c True by auto
    from less[OF shorter, of "emit col ?hd"] obtain r out where
      ih: "browser_slice_loop c ?tl (emit col ?hd) = Some (r, emit_all (emit col ?hd) out)"
          "concat out @ r = ?tl" "\<forall>x\<in>set out. int (length x) = c" "int (length r) < c"
      by blast
    have step: "browser_slice_loop c buf col = browser_slice_loop c ?tl (emit col ?hd)"
      using True c by (simp add: browser_slice_loop.simps[of c buf col] slice_head slice_rest)
    have len: "int (length ?hd) = c" using True c by auto
    have "browser_slice_loop c buf col = Some (r, emit_all col (?hd # out))"
      using step ih(1) by (simp add: emit_all_def)
    moreover have "concat (?hd # out) @ r = buf" using ih(2) by simp
    moreover have "\<forall>x\<in>set (?hd # out). int (length x) = c" using ih(3) len by simp
    ultimately show ?thesis using ih(4) by blast
  qed
qed

lemma browser_slice_loop_no_result:
  assumes "browser_slice_loop c buf col = Some y"
  shows "0 < c"
proof (rule browser_slice_loop.raw_induct[OF _ assms])
  fix loop :: "int \<Rightarrow> bytes \<Rightarrow> collector \<Rightarrow> (bytes \<times> collector) option"
    and chunkSize buffer col y
  assume ih: "\<And>chunkSize buffer col y. loop chunkSize buffer col = Some y \<Longrightarrow> 0 < chunkSize"
    and body: "(if chunkSize \<le> int (length buffer)
                then loop chunkSize (slice buffer chunkSize None)
                       (emit col (slice buffer 0 (Some chunkSize)))
                else Some (buffer, col)) = Some y"
  show "0 < chunkSize"
  proof (cases "chunkSize \<le> int (length buffer)")
    case True
    with body ih show ?thesis by simp
  next
    case False
    then show ?thesis by simp
  qed
qed

lemma browser_slice_loop_diverges: "c \<le> 0 \<Longrightarrow> browser_slice_loop c buf col = None"
  using browser_slice_loop_no_result[of c buf col] by (cases "browser_slice_loop c buf col") force+

lemma browser_read_loop_total:
  assumes c: "1 \<le> c"
  shows "int (length buffer) < c \<Longrightarrow>
         \<exists>r out. browser_read_loop c stream buffer col = Some (r, emit_all col out)
           \<and> concat out @ r = buffer @ concat (map incoming stream)
           \<and> (\<forall>x\<in>set out. int (length x) = c) \<and> int (length r) < c"
proof (induction stream arbitrary: buffer col)
  case Nil
  then show ?case by (intro exI[of _ buffer] exI[of _ "[]"]) (simp add: emit_all_def)
next
  case (Cons val rest)
  from browser_slice_loop_total[OF c, of "buffer @ incoming val" col] obtain r1 out1 where
    s1: "browser_slice_loop c (buffer @ incoming val) col = Some (r1, emit_all col out1)"
        "concat out1 @ r1 = buffer @ incoming val"
        "\<forall>x\<in>set out1. int (length x) = c" "int (length r1) < c"
    by blast
  from Cons.IH[OF s1(4), of "emit_all col out1"] obtain r out2 where
    s2: "browser_read_loop c rest r1 (emit_all col out1) = Some (r, emit_all (emit_all col out1) out2)"
        "concat out2 @ r = r1 @ concat (map incoming rest)"
        "\<forall>x\<in>set out2. int (length x) = c" "int (length r) < c"
    by blast
  have "browser_read_loop c (val # rest) buffer col = Some (r, emit_all col (out1 @ out2))"
    using s1(1) s2(1) by (simp add: emit_all_def)
  moreover have "concat (out1 @ out2) @ r = buffer @ concat (map incoming (val # rest))"
    using s1(2) s2(2) by (metis append.assoc concat.simps(2) concat_append list.simps(9))
  moreover have "\<forall>x\<in>set (out1 @ out2). int (length x) = c" using s1(3) s2(3) by auto
  ultimately show ?case using s2(4) by blast
qed

lemma processBrowserStream_result:
  assumes c: "1 \<le> c"
  shows "\<exists>out r. processBrowserStream stream c col = Some (emit_all col (with_tail out r))
           \<and> concat out @ r = concat (map incoming stream)
           \<and> (\<forall>x\<in>set out. int (length x) = c) \<and> int (length r) < c"
proof -
  have "int (length ([] :: bytes)) < c" using c by simp
  from browser_read_loop_total[OF c this, of stream col] obtain r out where
    s: "browser_read_loop c stream [] col = Some (r, emit_all col out)"
       "concat out @ r = [] @ concat (map incoming stream)"
       "\<forall>x\<in>set out. int (length x) = c" "int (length r) < c"
    by blast
  have "processBrowserStream stream c col = Some (emit_all col (with_tail out r))"
    using s(1) by (simp add: processBrowserStream_def with_tail_def emit_all_def)
  then show ?thesis using s(2-4) by auto
qed

lemma processBrowserStream_diverges:
  "c \<le> 0 \<Longrightarrow> stream \<noteq> [] \<Longrightarrow> processBrowserStream stream c col = None"
  by (cases stream) (simp_all add: processBrowserStream_def browser_slice_loop_diverges)


subsection \<open>Both\<close>

lemma process_result:
  assumes c: "1 \<le> c"
  shows "\<exists>out r. process src c col = Some (emit_all col (with_tail out r))
           \<and> concat out @ r = source_bytes src
           \<and> (\<forall>x\<in>set out. int (length x) = c) \<and> int (length r) < c"
proof (cases src)
  case (NodeReadable stream)
  then show ?thesis using processNodeStream_result[OF c, of stream col]
    by (simp add: source_bytes_def)
next
  case (BrowserReadable stream)
  then show ?thesis using processBrowserStream_result[OF c, of stream col]
    by (simp add: source_bytes_def)
qed

lemma process_diverges:
  "c \<le> 0 \<Longrightarrow> delivered src \<noteq> [] \<Longrightarrow> process src c col = None"
  by (cases src) (simp_all add: processNodeStream_diverges processBrowserStream_diverges)

lemma incoming_Binary: "map (incoming \<circ> Binary) bss = bss"
  by (induction bss) auto

text \<open>
  Claim C3. A byte source delivers the byte arrays \<open>bss\<close>, in this order and with this
  division, as a Node stream or as a browser stream; its bytes are \<open>concat bss\<close> and
  \<open>N\<close> is their number. For a chunk size \<open>C > 0\<close>, \<open>process\<close> returns, and the chunks it
  emits concatenate to exactly these bytes, number \<open>ceil (N / C)\<close> (none when
  \<open>N = 0\<close>), and all have length \<open>C\<close> except possibly the last. This holds for both
  kinds of collector, whatever was collected before.
\<close>

theorem chunking_round_trip:
  assumes "0 < C"
    and "src = NodeReadable (map Binary bss) \<or> src = BrowserReadable (map Binary bss)"
  shows "\<exists>chunks. map_option emitted (process src (int C) col) = Some (emitted col @ chunks)
           \<and> concat chunks = concat bss
           \<and> length chunks = (length (concat bss) + C - 1) div C
           \<and> (\<forall>i. Suc i < length chunks \<longrightarrow> length (chunks ! i) = C)
           \<and> (length (concat bss) = 0 \<longrightarrow> chunks = [])"
proof -
  from assms(1) have c: "1 \<le> int C" by simp
  from assms(2) have sb: "source_bytes src = concat bss"
    by (auto simp: source_bytes_def incoming_Binary)
  from process_result[OF c, of src col] obtain out r where
    p: "process src (int C) col = Some (emit_all col (with_tail out r))"
       "concat out @ r = source_bytes src"
       "\<forall>x\<in>set out. int (length x) = int C" "int (length r) < int C"
    by blast
  from p(3) have u: "\<forall>x\<in>set out. length x = C" by simp
  from p(4) have l: "length r < C" by simp
  let ?chunks = "with_tail out r"
  have a: "map_option emitted (process src (int C) col) = Some (emitted col @ ?chunks)"
    using p(1) by (simp add: emitted_emit_all)
  have b: "concat ?chunks = concat bss"
    using p(2) sb by (simp add: with_tail_concat)
  have n: "length ?chunks = (length (concat bss) + C - 1) div C"
    using with_tail_count[OF assms(1) u l] p(2) sb by simp
  have f: "\<forall>i. Suc i < length ?chunks \<longrightarrow> length (?chunks ! i) = C"
    using with_tail_full[OF u] by blast
  have z: "length (concat bss) = 0 \<longrightarrow> ?chunks = []"
  proof
    assume "length (concat bss) = 0"
    then have e: "concat out @ r = []" using p(2) sb by simp
    then have "r = []" by simp
    moreover have "out = []"
    proof (cases out)
      case Nil
      then show ?thesis .
    next
      case (Cons x xs)
      then have "length x = C" using u by simp
      moreover have "x = []" using e Cons by simp
      ultimately show ?thesis using assms(1) by simp
    qed
    ultimately show "?chunks = []" by (simp add: with_tail_def)
  qed
  from a b n f z show ?thesis by blast
qed

theorem chunking_round_trip_witness:
  "(0::nat) < 4
   \<and> process (NodeReadable (map Binary [[1, 2, 3], [4, 5], [], [9, 8, 7, 6]])) (int 4)
         (ArrayCollector [])
       = Some (ArrayCollector [[1, 2, 3, 4], [5, 9, 8, 7], [6]])
   \<and> process (BrowserReadable (map Binary [[1, 2, 3], [4, 5], [], [9, 8, 7, 6]])) (int 4)
         (WritableSink [[0]])
       = Some (WritableSink [[0], [1, 2, 3, 4], [5, 9, 8, 7], [6]])
   \<and> concat [[1, 2, 3, 4], [5, 9, 8, 7], [6 :: byte]] = concat [[1, 2, 3], [4, 5], [], [9, 8, 7, 6]]
   \<and> length [[1, 2, 3, 4], [5, 9, 8, 7], [6 :: byte]]
       = (length (concat [[1, 2, 3], [4, 5], [], [9, 8, 7, 6 :: byte]]) + 4 - 1) div 4"
proof -
  let ?bss = "[[1, 2, 3], [4, 5], [], [9, 8, 7, 6]] :: bytes list"
  let ?out = "[[1, 2, 3, 4], [5, 9, 8, 7], [6]] :: bytes list"
  have h: "(0::nat) < 4" by simp
  have pn: "process (NodeReadable (map Binary ?bss)) (int 4) (ArrayCollector [])
              = Some (ArrayCollector ?out)"
    by code_simp
  have pb: "process (BrowserReadable (map Binary ?bss)) (int 4) (WritableSink [[0]])
              = Some (WritableSink ([[0]] @ ?out))"
    by code_simp
  from chunking_round_trip [OF h, of "NodeReadable (map Binary ?bss)" ?bss "ArrayCollector []"]
  obtain chunks where
    c: "map_option emitted (process (NodeReadable (map Binary ?bss)) (int 4) (ArrayCollector []))
          = Some (emitted (ArrayCollector []) @ chunks)"
       "concat chunks = concat ?bss"
       "length chunks = (length (concat ?bss) + 4 - 1) div 4"
    by blast
  from c(1) pn have "chunks = ?out" by simp
  with c(2,3) have "concat ?out = concat ?bss"
    and "length ?out = (length (concat ?bss) + 4 - 1) div 4"
    by simp_all
  with h pn pb show ?thesis by simp
qed

text \<open>
  Claim C9. With a chunk size of at least 1, \<open>process\<close> returns for every finite
  source. With a chunk size of 0 or less the test of the slicing loop holds for every
  buffer, so the loop never ends, and \<open>process\<close> does not return once the source has
  delivered a first chunk.
\<close>

theorem process_terminates_iff_positive_chunkSize:
  "(1 \<le> chunkSize \<longrightarrow> (\<exists>col'. process src chunkSize col = Some col'))
   \<and> (chunkSize \<le> 0 \<longrightarrow>
        node_slice_loop chunkSize buffer col = None
        \<and> browser_slice_loop chunkSize buffer col = None)
   \<and> (chunkSize \<le> 0 \<and> delivered src \<noteq> [] \<longrightarrow> process src chunkSize col = None)"
proof (intro conjI impI)
  assume "1 \<le> chunkSize"
  from process_result[OF this, of src col] show "\<exists>col'. process src chunkSize col = Some col'"
    by blast
next
  assume "chunkSize \<le> 0"
  then show "node_slice_loop chunkSize buffer col = None"
    by (rule node_slice_loop_diverges)
next
  assume "chunkSize \<le> 0"
  then show "browser_slice_loop chunkSize buffer col = None"
    by (rule browser_slice_loop_diverges)
next
  assume "chunkSize \<le> 0 \<and> delivered src \<noteq> []"
  then show "process src chunkSize col = None"
    by (simp add: process_diverges)
qed

theorem process_terminates_iff_positive_chunkSize_witness:
  "(1::int) \<le> 2
   \<and> (\<exists>col'. process (BrowserReadable [Binary [1, 2, 3]]) 2 (WritableSink []) = Some col')
   \<and> (0::int) \<le> 0 \<and> delivered (BrowserReadable [Binary [1, 2, 3]]) \<noteq> []
   \<and> node_slice_loop 0 [1, 2, 3] (WritableSink []) = None
   \<and> browser_slice_loop 0 [1, 2, 3] (WritableSink []) = None
   \<and> process (BrowserReadable [Binary [1, 2, 3]]) 0 (WritableSink []) = None"
  using process_terminates_iff_positive_chunkSize
          [where chunkSize = 2 and src = "BrowserReadable [Binary [1, 2, 3]]"
             and col = "WritableSink []" and buffer = "[1, 2, 3]"]
        process_terminates_iff_positive_chunkSize
          [where chunkSize = 0 and src = "BrowserReadable [Binary [1, 2, 3]]"
             and col = "WritableSink []" and buffer = "[1, 2, 3]"]
  by simp

section \<open>Error classifier: proofs\<close>

lemma bears_code_or_message_eq: "bears_code_or_message v = Inr (error_object v)"
  by (cases v) (auto simp: bears_code_or_message_def error_object_def opt_chain_def own_prop_def)

lemma getByPath_total: "\<exists>v. getByPath d path = Inr v"
proof (induction path arbitrary: d)
  case Nil
  show ?case by simp
next
  case (Cons key path)
  show ?case
  proof (cases "typeof d = ''object'' \<and> d \<noteq> JNull")
    case False
    then show ?thesis by auto
  next
    case True
    then obtain v where g: "get_prop d key = Inr v" by (cases d) auto
    from Cons[of v] g True show ?thesis by auto
  qed
qed

lemma getByPath_resolves: "getByPath d path = Inr (resolves d path)"
  using getByPath_total[of d path] by (auto simp: resolves_def)

lemma path_matches_eq: "path_matches r path = Inr (error_object (resolves r path))"
  by (simp add: path_matches_def getByPath_resolves bears_code_or_message_eq)

lemma some_path_eq: "some_path r paths = Inr (\<exists>p\<in>set paths. error_object (resolves r p))"
  by (induction paths) (auto simp: path_matches_eq)

lemma first_match_eq:
  "first_match r paths =
     Inr (case find (\<lambda>p. error_object (resolves r p)) paths of
            None \<Rightarrow> JObj []
          | Some p \<Rightarrow> resolves r p)"
  by (induction paths) (auto simp: getByPath_resolves bears_code_or_message_eq)

lemma error_object_nonempty: "error_object v \<Longrightarrow> v \<noteq> JObj []"
  by (auto simp: error_object_def own_prop_def)

text \<open>
  Claim C10. For every envelope, neither \<open>hasError\<close> nor \<open>getError\<close> throws;
  \<open>hasError\<close> is true exactly when \<open>getError\<close> returns a non-empty object, and exactly
  when one of the error paths resolves to an object whose code or message is truthy,
  which is then the object \<open>getError\<close> returns. An error object whose code and message
  are empty strings or absent is not classified as an error.
\<close>

theorem hasError_iff_getError_nonempty:
  "\<exists>b e. hasError response = Inr b \<and> getError response = Inr e
     \<and> (b \<longleftrightarrow> e \<noteq> JObj [])
     \<and> (b \<longleftrightarrow> (\<exists>path\<in>set errorPaths. \<exists>v. getByPath response path = Inr v \<and> error_object v))
     \<and> (b \<longrightarrow> error_object e \<and> (\<exists>path\<in>set errorPaths. getByPath response path = Inr e))"
proof -
  let ?hit = "\<lambda>p. error_object (resolves response p)"
  let ?b = "\<exists>p\<in>set errorPaths. ?hit p"
  let ?e = "case find ?hit errorPaths of None \<Rightarrow> JObj [] | Some p \<Rightarrow> resolves response p"
  have h: "hasError response = Inr ?b" by (simp add: hasError_def some_path_eq)
  have g: "getError response = Inr ?e" by (simp add: getError_def first_match_eq)
  have found: "?b \<Longrightarrow> \<exists>p\<in>set errorPaths. ?hit p \<and> ?e = resolves response p"
  proof -
    assume "?b"
    then obtain p where p: "find ?hit errorPaths = Some p"
      by (cases "find ?hit errorPaths") (auto simp: find_None_iff)
    then have "p \<in> set errorPaths" "?hit p" by (auto simp: find_Some_iff)
    with p show ?thesis by auto
  qed
  have none: "\<not> ?b \<Longrightarrow> ?e = JObj []"
    by (cases "find ?hit errorPaths") (auto simp: find_Some_iff)
  have c1: "?b \<longleftrightarrow> ?e \<noteq> JObj []"
    using found none error_object_nonempty by metis
  have c2: "?b \<longleftrightarrow> (\<exists>path\<in>set errorPaths. \<exists>v. getByPath response path = Inr v \<and> error_object v)"
    by (simp add: getByPath_resolves)
  have c3: "?b \<longrightarrow> error_object ?e \<and> (\<exists>path\<in>set errorPaths. getByPath response path = Inr ?e)"
    using found by (metis getByPath_resolves)
  from h g c1 c2 c3 show ?thesis by blast
qed

theorem hasError_iff_getError_nonempty_witness:
  "\<exists>b e. hasError envelope_empty_error = Inr b \<and> getError envelope_empty_error = Inr e
     \<and> \<not> b \<and> e = JObj []
     \<and> hasError envelope_two_errors = Inr True
     \<and> getError envelope_two_errors \<noteq> Inr (JObj [])"
proof -
  have 1: "hasError envelope_empty_error = Inr False" by code_simp
  have 2: "hasError envelope_two_errors = Inr True" by code_simp
  from hasError_iff_getError_nonempty [of envelope_empty_error] 1
  have 3: "getError envelope_empty_error = Inr (JObj [])" by auto
  from hasError_iff_getError_nonempty [of envelope_two_errors] 2
  have 4: "getError envelope_two_errors \<noteq> Inr (JObj [])" by auto
  from 1 2 3 4 show ?thesis
    by (intro exI[of _ False] exI[of _ "JObj []"]) simp
qed

text \<open>
  Claim C8, as amended. When the envelope itself bears no truthy code or message and
  the path \<open>error\<close> resolves to an object with a truthy code or message, \<open>getError\<close>
  returns that object, whatever \<open>result.error\<close> holds.
\<close>

theorem getError_prefers_root_error:
  assumes "\<not> error_object response"
    and "getByPath response [''error''] = Inr err"
    and "error_object err"
  shows "getError response = Inr err"
  using assms
  by (simp add: getError_def errorPaths_def bears_code_or_message_eq split: if_splits)

theorem getError_prefers_root_error_witness:
  "\<not> error_object envelope_two_errors
   \<and> getByPath envelope_two_errors [''error''] = Inr (JObj [(''code'', JStr ''A'')])
   \<and> error_object (JObj [(''code'', JStr ''A'')])
   \<and> getByPath envelope_two_errors [''result'', ''error''] = Inr (JObj [(''code'', JStr ''B'')])
   \<and> error_object (JObj [(''code'', JStr ''B'')])
   \<and> getError envelope_two_errors = Inr (JObj [(''code'', JStr ''A'')])"
proof -
  have 1: "\<not> error_object envelope_two_errors" by code_simp
  have 2: "getByPath envelope_two_errors [''error''] = Inr (JObj [(''code'', JStr ''A'')])"
    by code_simp
  have 3: "error_object (JObj [(''code'', JStr ''A'')])" by code_simp
  have 4: "getByPath envelope_two_errors [''result'', ''error''] = Inr (JObj [(''code'', JStr ''B'')])"
    by code_simp
  have 5: "error_object (JObj [(''code'', JStr ''B'')])" by code_simp
  from getError_prefers_root_error [OF 1 2 3] 1 2 3 4 5 show ?thesis by simp
qed

text \<open>
  Claim C8 as stated fails: the first error path is the envelope itself, so an
  envelope with a truthy message of its own is returned whole, although \<open>error\<close> and
  \<open>result.error\<close> both resolve to error objects.
\<close>

theorem getError_root_envelope_first:
  "getByPath envelope_root_wins [''error''] = Inr (JObj [(''code'', JStr ''A'')])
   \<and> error_object (JObj [(''code'', JStr ''A'')])
   \<and> getByPath envelope_root_wins [''result'', ''error''] = Inr (JObj [(''code'', JStr ''B'')])
   \<and> error_object (JObj [(''code'', JStr ''B'')])
   \<and> getError envelope_root_wins = Inr envelope_root_wins
   \<and> getError envelope_root_wins \<noteq> Inr (JObj [(''code'', JStr ''A'')])"
  by code_simp

section \<open>Transport layer: proofs\<close>

text \<open>
  An explicit timeout other than 0 always selects the long timeout, and 0 the default
  one: the conditional tests the coalesced value instead of returning it.
\<close>

lemma request_timeoutMs_cases:
  "request_timeoutMs cfg endpoint (Some t) = (if t \<noteq> 0 then cfg_longTimeout cfg else cfg_defaultTimeout cfg)"
  by (simp add: request_timeoutMs_def Let_def)

text \<open>
  Claim C1 fails at an explicit timeout. \<open>API.convertFile\<close> passes the default
  timeout of 30000 ms with the endpoint \<open>/convert/file\<close>, and the deadline of the
  request is the long timeout of 300000 ms; an explicit 5000 ms gives the same. Without
  an explicit timeout the endpoint decides, as claimed.
\<close>

theorem request_timeout_ignores_explicit:
  "request_timeoutMs DEFAULT_CONFIG ''/convert/file'' (Some 30000) = 300000
   \<and> request_timeoutMs DEFAULT_CONFIG ''/convert/file'' (Some 5000) = 300000
   \<and> request_timeoutMs DEFAULT_CONFIG ''/convert/file'' None = 30000
   \<and> request_timeoutMs DEFAULT_CONFIG ''/upload/file'' None = 300000
   \<and> request_timeoutMs DEFAULT_CONFIG ''/download/url/get'' None = 300000"
  by code_simp

text \<open>
  A code that names an inherited property of the table makes \<open>raiseForResponse\<close> throw
  what \<open>new\<close> gives or throws, not an \<open>APIException\<close>.
\<close>

lemma raiseForResponse_inherited_key:
  "raiseForResponse (JObj [(''error'', JObj [(''code'', JStr ''toString'')])])
     = Inl (Exn TypeError ''ExceptionClass is not a constructor'')
   \<and> raiseForResponse (JObj [(''error'', JObj [(''code'', JStr ''constructor'')])])
     = Inl (ThrownString ''[constructor] No error message available.'')
   \<and> raiseForResponse (JObj [(''error'', JObj [(''code'', JStr ''NEW_CODE'')])])
     = Inl (Exn APIException ''[NEW_CODE] No error message available.'')"
  by code_simp

text \<open>An error code of the table is raised at the first attempt, with no wait.\<close>

lemma sendRequest_known_code_terminal:
  "sendRequest DEFAULT_CONFIG (\<lambda>attempt. Fulfilled known_code_response)
        = ([], Inl (Exn (APIErrorClass ''NotFoundError'') ''[NOT_FOUND] gone''))"
  by code_simp

text \<open>
  Claim C2 fails for a code that is not in the table. \<open>raiseForResponse\<close> throws an
  \<open>APIException\<close>, which is not an \<open>APIError\<close>, so \<open>sendRequest\<close> treats it as a
  transport failure: with the default five retries it waits 2, 4, 8 and 16 seconds and
  then raises a \<open>NetworkConnectionError\<close>.
\<close>

theorem sendRequest_retries_unknown_code:
  "sendRequest DEFAULT_CONFIG (\<lambda>attempt. Fulfilled unknown_code_response)
     = ([2000, 4000, 8000, 16000],
        Inl (Exn NetworkConnectionError
               ''All 5 retries failed! Error: [BRAND_NEW_CODE] not in the table''))"
  by code_simp

text \<open>
  Claim C5. With three retries, transport failures at attempts 1 and 2 and a result at
  attempt 3, \<open>sendRequest\<close> returns that result after waits of 2000 ms and 4000 ms.
  With one retry and a transport failure, it raises a \<open>NetworkConnectionError\<close> whose
  message ends with the message of the failure, after no wait.
\<close>

theorem sendRequest_backoff:
  "(cfg_retries cfg = 3 \<and> request 1 = Rejected e1 \<and> transport_failure e1
      \<and> request 2 = Rejected e2 \<and> transport_failure e2
      \<and> attempt_body (request 3) = Inr r
      \<longrightarrow> sendRequest cfg request = ([2000, 4000], Inr r))
   \<and> (cfg_retries cfg = 1 \<and> request 1 = Rejected e \<and> transport_failure e
      \<longrightarrow> sendRequest cfg request
            = ([], Inl (Exn NetworkConnectionError
                          (''All 1 retries failed! Error: '' @ exn_message e))))"
proof (intro conjI impI)
  assume a: "cfg_retries cfg = 3 \<and> request 1 = Rejected e1 \<and> transport_failure e1
      \<and> request 2 = Rejected e2 \<and> transport_failure e2
      \<and> attempt_body (request 3) = Inr r"
  then have b1: "attempt_body (request (Suc 0)) = Inl e1" and b2: "attempt_body (request 2) = Inl e2"
    by (simp_all add: attempt_body_def)
  have l3: "sendRequest_loop request 3 3 [2000, 4000] = ([2000, 4000], Inr r)"
    using a by (subst sendRequest_loop.simps) simp
  have l2: "sendRequest_loop request 3 2 [2000] = ([2000, 4000], Inr r)"
    using a b2 l3 by (subst sendRequest_loop.simps) (simp add: transport_failure_def)
  have l1: "sendRequest_loop request 3 (Suc 0) [] = ([2000, 4000], Inr r)"
    using a b1 l2 by (subst sendRequest_loop.simps) (simp add: transport_failure_def numeral_2_eq_2)
  show "sendRequest cfg request = ([2000, 4000], Inr r)"
    using a l1 by (simp add: sendRequest_def)
next
  assume a: "cfg_retries cfg = 1 \<and> request 1 = Rejected e \<and> transport_failure e"
  then have b1: "attempt_body (request (Suc 0)) = Inl e" by (simp add: attempt_body_def)
  have s1: "show_int 1 = ''1''" by code_simp
  show "sendRequest cfg request
            = ([], Inl (Exn NetworkConnectionError
                          (''All 1 retries failed! Error: '' @ exn_message e)))"
    using a b1 s1 by (simp add: sendRequest_def transport_failure_def)
qed

theorem sendRequest_backoff_witness:
  "sendRequest (DEFAULT_CONFIG\<lparr>cfg_retries := 3\<rparr>) flaky_request
     = ([2000, 4000],
        Inr (Parsed (JObj [(''result'', JObj [(''output'', JObj [(''connector'', JStr ''abc'')])])])))
   \<and> sendRequest (DEFAULT_CONFIG\<lparr>cfg_retries := 1\<rparr>) dead_request
     = ([], Inl (Exn NetworkConnectionError ''All 1 retries failed! Error: fetch failed''))"
proof -
  have h1: "cfg_retries (DEFAULT_CONFIG\<lparr>cfg_retries := 3\<rparr>) = 3
      \<and> flaky_request 1 = Rejected (Exn TypeError ''fetch failed'')
      \<and> transport_failure (Exn TypeError ''fetch failed'')
      \<and> flaky_request 2 = Rejected (Exn TypeError ''fetch failed'')
      \<and> transport_failure (Exn TypeError ''fetch failed'')
      \<and> attempt_body (flaky_request 3)
          = Inr (Parsed (JObj [(''result'', JObj [(''output'', JObj [(''connector'', JStr ''abc'')])])]))"
    by code_simp
  have h2: "cfg_retries (DEFAULT_CONFIG\<lparr>cfg_retries := 1\<rparr>) = 1
      \<and> dead_request 1 = Rejected (Exn TypeError ''fetch failed'')
      \<and> transport_failure (Exn TypeError ''fetch failed'')"
    by code_simp
  from sendRequest_backoff
         [where cfg = "DEFAULT_CONFIG\<lparr>cfg_retries := 3\<rparr>" and request = flaky_request
            and ?e1.0 = "Exn TypeError ''fetch failed''" and ?e2.0 = "Exn TypeError ''fetch failed''"
            and r = "Parsed (JObj [(''result'', JObj [(''output'', JObj [(''connector'', JStr ''abc'')])])])"]
       h1
  have a: "sendRequest (DEFAULT_CONFIG\<lparr>cfg_retries := 3\<rparr>) flaky_request
     = ([2000, 4000],
        Inr (Parsed (JObj [(''result'', JObj [(''output'', JObj [(''connector'', JStr ''abc'')])])])))"
    by blast
  from sendRequest_backoff
         [where cfg = "DEFAULT_CONFIG\<lparr>cfg_retries := 1\<rparr>" and request = dead_request
            and e = "Exn TypeError ''fetch failed''"]
       h2
  have b: "sendRequest (DEFAULT_CONFIG\<lparr>cfg_retries := 1\<rparr>) dead_request
     = ([], Inl (Exn NetworkConnectionError
                   (''All 1 retries failed! Error: '' @ exn_message (Exn TypeError ''fetch failed''))))"
    by blast
  from a b show ?thesis by simp
qed

section \<open>Workflow wait loop: proofs\<close>

lemma wait_loop_done:
  "task poll = ''completed'' \<Longrightarrow> wait_loop task ivs poll step slept = Some (slept, Inr ())"
  by (subst wait_loop.simps) simp

lemma wait_loop_number:
  assumes "task poll \<noteq> ''completed''" "step < length ivs" "ivs ! step = JNum n"
  shows "wait_loop task ivs poll step slept =
           wait_loop task ivs (poll + 1)
             (if int step < int (length ivs) - 1 then step + 1 else step) (slept @ [n * 1000])"
  using assms by (subst wait_loop.simps) (simp add: index_or_undefined_def)

lemma wait_loop_not_number:
  assumes "task poll \<noteq> ''completed''" "typeof (index_or_undefined ivs step) \<noteq> ''number''"
  shows "wait_loop task ivs poll step slept =
           Some (slept, Inl (Exn Error (''pollIntervals['' @ show_nat step
                   @ ''] is not a valid number: '' @ to_string (index_or_undefined ivs step))))"
  using assms
  by (subst wait_loop.simps) (cases "index_or_undefined ivs step"; simp add: Let_def)

lemma clamped_advance:
  "xs \<noteq> [] \<Longrightarrow>
   (if int (clamped xs p) < int (length xs) - 1 then clamped xs p + 1 else clamped xs p)
     = clamped xs (Suc p)"
  by (cases xs) (auto simp: clamped_def min_def)

lemma wait_loop_numbers_run:
  assumes ne: "ns \<noteq> []"
    and running: "\<forall>j. p \<le> j \<and> j < p + m \<longrightarrow> task j \<noteq> ''completed''"
  shows "wait_loop task (map JNum ns) p (clamped ns p) slept
           = wait_loop task (map JNum ns) (p + m) (clamped ns (p + m))
               (slept @ map (\<lambda>j. ns ! clamped ns j * 1000) [p..<p + m])"
  using running
proof (induction m arbitrary: p slept)
  case 0
  show ?case by simp
next
  case (Suc m)
  have lt: "clamped ns p < length (map JNum ns)" using ne by (cases ns) (auto simp: clamped_def)
  have el: "map JNum ns ! clamped ns p = JNum (ns ! clamped ns p)" using lt by simp
  have r: "task p \<noteq> ''completed''" using Suc.prems by simp
  have adv: "(if int (clamped ns p) < int (length (map JNum ns)) - 1
                then clamped ns p + 1 else clamped ns p) = clamped ns (Suc p)"
    using clamped_advance[OF ne, of p] by simp
  have step: "wait_loop task (map JNum ns) p (clamped ns p) slept
                = wait_loop task (map JNum ns) (Suc p) (clamped ns (Suc p))
                    (slept @ [ns ! clamped ns p * 1000])"
    using wait_loop_number[where task = task and poll = p and step = "clamped ns p"
            and ivs = "map JNum ns" and n = "ns ! clamped ns p" and slept = slept] r lt el adv
    by simp
  have rest: "\<forall>j. Suc p \<le> j \<and> j < Suc p + m \<longrightarrow> task j \<noteq> ''completed''"
    using Suc.prems by simp
  have "[p..<p + Suc m] = p # [Suc p..<Suc p + m]" by (simp add: upt_conv_Cons)
  then show ?case using step Suc.IH[OF rest, of "slept @ [ns ! clamped ns p * 1000]"] by simp
qed

lemma wait_loop_never_result:
  assumes "wait_loop task ivs poll step slept = Some y"
  shows "\<not> ((\<forall>j. task j \<noteq> ''completed'') \<and> step < length ivs \<and> (\<forall>v\<in>set ivs. typeof v = ''number''))"
proof (rule wait_loop.raw_induct[OF _ assms])
  fix loop :: "(nat \<Rightarrow> string) \<Rightarrow> jsval list \<Rightarrow> nat \<Rightarrow> nat \<Rightarrow> int list \<Rightarrow> (int list \<times> (exn + unit)) option"
    and task pollIntervals poll step slept y
  assume ih: "\<And>task ivs poll step slept y. loop task ivs poll step slept = Some y \<Longrightarrow>
            \<not> ((\<forall>j. task j \<noteq> ''completed'') \<and> step < length ivs \<and> (\<forall>v\<in>set ivs. typeof v = ''number''))"
    and body: "(if task poll = ''completed'' then Some (slept, Inr ())
      else
        (let interval = index_or_undefined pollIntervals step
         in case interval of
              JNum n \<Rightarrow>
                loop task pollIntervals (poll + 1)
                  (if int step < int (length pollIntervals) - 1 then step + 1 else step)
                  (slept @ [n * 1000])
            | _ \<Rightarrow>
                Some (slept, Inl (Exn Error
                  (''pollIntervals['' @ show_nat step @ ''] is not a valid number: ''
                     @ to_string interval))))) = Some y"
  show "\<not> ((\<forall>j. task j \<noteq> ''completed'') \<and> step < length pollIntervals
           \<and> (\<forall>v\<in>set pollIntervals. typeof v = ''number''))"
  proof
    assume a: "(\<forall>j. task j \<noteq> ''completed'') \<and> step < length pollIntervals
           \<and> (\<forall>v\<in>set pollIntervals. typeof v = ''number'')"
    then have "typeof (pollIntervals ! step) = ''number''" by simp
    then obtain n where n: "pollIntervals ! step = JNum n" by (cases "pollIntervals ! step") auto
    let ?s = "if int step < int (length pollIntervals) - 1 then step + 1 else step"
    have "loop task pollIntervals (poll + 1) ?s (slept @ [n * 1000]) = Some y"
      using body a n by (simp add: index_or_undefined_def)
    moreover have "?s < length pollIntervals" using a by auto
    ultimately show False using ih a by blast
  qed
qed

lemma wait_numbers_completed:
  assumes ne: "ns \<noteq> []" and run: "\<forall>j<k. task j \<noteq> ''completed''" and fin: "task k = ''completed''"
  shows "wait task (map JNum ns)
           = Some (map (\<lambda>j. ns ! min j (length ns - 1) * 1000) [0..<k], Inr ())"
proof -
  have r: "\<forall>j. 0 \<le> j \<and> j < 0 + k \<longrightarrow> task j \<noteq> ''completed''" using run by simp
  have c0: "clamped ns 0 = 0" by (simp add: clamped_def)
  have "wait task (map JNum ns)
          = wait_loop task (map JNum ns) k (clamped ns k)
              (map (\<lambda>j. ns ! clamped ns j * 1000) [0..<k])"
    using wait_loop_numbers_run[OF ne r, of "[]"] c0 by (simp add: wait_def)
  also have "\<dots> = Some (map (\<lambda>j. ns ! clamped ns j * 1000) [0..<k], Inr ())"
    using fin by (rule wait_loop_done)
  finally show ?thesis by (simp add: clamped_def)
qed

lemma wait_numbers_forever:
  assumes ne: "ns \<noteq> []" and run: "\<forall>j. task j \<noteq> ''completed''"
  shows "wait task (map JNum ns) = None"
proof (cases "wait task (map JNum ns)")
  case None
  then show ?thesis .
next
  case (Some y)
  then have "wait_loop task (map JNum ns) 0 0 [] = Some y" by (simp add: wait_def)
  from wait_loop_never_result[OF this] run ne show ?thesis by auto
qed

lemma wait_numbers_never_raise:
  assumes ne: "ns \<noteq> []"
  shows "wait task (map JNum ns) \<noteq> Some (slept, Inl e)"
proof (cases "\<exists>k. task k = ''completed''")
  case False
  then show ?thesis using wait_numbers_forever[OF ne, of task] by simp
next
  case True
  define k where "k = (LEAST k. task k = ''completed'')"
  have fin: "task k = ''completed''" unfolding k_def using True by (rule LeastI_ex)
  have run: "\<forall>j<k. task j \<noteq> ''completed''" unfolding k_def using not_less_Least by blast
  show ?thesis using wait_numbers_completed[OF ne run fin] by simp
qed

lemma wait_loop_prefix_run:
  assumes running: "\<forall>j. p \<le> j \<and> j < p + m \<longrightarrow> task j \<noteq> ''completed''"
    and inside: "p + m \<le> length ns"
  shows "wait_loop task (map JNum ns @ bad # rest) p p slept
           = wait_loop task (map JNum ns @ bad # rest) (p + m) (p + m)
               (slept @ map (\<lambda>j. ns ! j * 1000) [p..<p + m])"
  using running inside
proof (induction m arbitrary: p slept)
  case 0
  show ?case by simp
next
  case (Suc m)
  let ?ivs = "map JNum ns @ bad # rest"
  have lt: "p < length ?ivs" using Suc.prems(2) by simp
  have el: "?ivs ! p = JNum (ns ! p)" using Suc.prems(2) by (simp add: nth_append)
  have r: "task p \<noteq> ''completed''" using Suc.prems(1) by simp
  have adv: "(if int p < int (length ?ivs) - 1 then p + 1 else p) = Suc p"
    using Suc.prems(2) by simp
  have step: "wait_loop task ?ivs p p slept
                = wait_loop task ?ivs (Suc p) (Suc p) (slept @ [ns ! p * 1000])"
    using wait_loop_number[where task = task and poll = p and step = p
            and ivs = ?ivs and n = "ns ! p" and slept = slept] r lt el adv
    by simp
  have rest: "\<forall>j. Suc p \<le> j \<and> j < Suc p + m \<longrightarrow> task j \<noteq> ''completed''"
    using Suc.prems(1) by simp
  have ins: "Suc p + m \<le> length ns" using Suc.prems(2) by simp
  have "[p..<p + Suc m] = p # [Suc p..<Suc p + m]" by (simp add: upt_conv_Cons)
  then show ?case using step Suc.IH[OF rest ins, of "slept @ [ns ! p * 1000]"] by simp
qed

text \<open>
  Claim C6. For a non-empty sequence of numbers, the sleep before poll \<open>j + 1\<close> is
  the interval at index \<open>min j (length - 1)\<close>: the index advances by one per poll and
  stays at the last element. The loop ends at the first poll that reports
  \<open>completed\<close>, and it never ends when no poll does.
\<close>

theorem wait_clamps_and_continues:
  assumes "ns \<noteq> []"
  shows "((\<forall>j<k. task j \<noteq> ''completed'') \<and> task k = ''completed'' \<longrightarrow>
            wait task (map JNum ns)
              = Some (map (\<lambda>j. ns ! min j (length ns - 1) * 1000) [0..<k], Inr ()))
         \<and> ((\<forall>j. task j \<noteq> ''completed'') \<longrightarrow> wait task (map JNum ns) = None)"
  using wait_numbers_completed[OF assms, of k task] wait_numbers_forever[OF assms, of task]
  by blast

theorem wait_clamps_and_continues_witness:
  "[10, 10, 15] \<noteq> ([] :: int list)
   \<and> wait five_polls SLEEP_PATTERN = Some ([10000, 10000, 15000, 15000, 15000], Inr ())
   \<and> wait never_completed SLEEP_PATTERN = None"
proof -
  have ne: "[10, 10, 15] \<noteq> ([] :: int list)" by simp
  have sp: "SLEEP_PATTERN = map JNum [10, 10, 15]" by (simp add: SLEEP_PATTERN_def)
  have h1: "(\<forall>j<5. five_polls j \<noteq> ''completed'') \<and> five_polls 5 = ''completed''"
    by (simp add: five_polls_def)
  have h2: "\<forall>j. never_completed j \<noteq> ''completed''" by (simp add: never_completed_def)
  have sl: "map (\<lambda>j. [10, 10, 15 :: int] ! min j (length [10, 10, 15 :: int] - 1) * 1000) [0..<5]
              = [10000, 10000, 15000, 15000, 15000]"
    by code_simp
  from wait_clamps_and_continues [OF ne, of 5 five_polls] h1 sl sp
  have a: "wait five_polls SLEEP_PATTERN = Some ([10000, 10000, 15000, 15000, 15000], Inr ())"
    by simp
  from wait_clamps_and_continues [OF ne, of 5 never_completed] h2 sp
  have b: "wait never_completed SLEEP_PATTERN = None" by simp
  from ne a b show ?thesis by simp
qed

text \<open>
  Claim C7, as amended. \<open>wait\<close> raises, before sleeping at that step, when the element
  at the index it needs is missing or is not of type number: at once for an empty
  sequence, and after the sleeps of the numbers before it otherwise. A sequence of
  numbers never makes it raise, whatever their sign.
\<close>

theorem wait_raises_on_non_number:
  "(task 0 \<noteq> ''completed'' \<longrightarrow>
      wait task [] = Some ([], Inl (Exn Error ''pollIntervals[0] is not a valid number: undefined'')))
   \<and> ((\<forall>j\<le>length ns. task j \<noteq> ''completed'') \<and> typeof bad \<noteq> ''number'' \<longrightarrow>
        wait task (map JNum ns @ bad # rest)
          = Some (map (\<lambda>n. n * 1000) ns,
                  Inl (Exn Error (''pollIntervals['' @ show_nat (length ns)
                         @ ''] is not a valid number: '' @ to_string bad))))
   \<and> (ns \<noteq> [] \<longrightarrow> (\<forall>slept e. wait task (map JNum ns) \<noteq> Some (slept, Inl e)))"
proof (intro conjI impI allI)
  assume r: "task 0 \<noteq> ''completed''"
  have u: "typeof (index_or_undefined [] 0) \<noteq> ''number''" by (simp add: index_or_undefined_def)
  have s0: "show_nat 0 = ''0''" by code_simp
  show "wait task [] = Some ([], Inl (Exn Error ''pollIntervals[0] is not a valid number: undefined''))"
    using wait_loop_not_number[where task = task and poll = 0 and ivs = "[]" and step = 0
            and slept = "[]"] r u s0
    by (simp add: wait_def index_or_undefined_def)
next
  assume a: "(\<forall>j\<le>length ns. task j \<noteq> ''completed'') \<and> typeof bad \<noteq> ''number''"
  let ?ivs = "map JNum ns @ bad # rest"
  have run: "\<forall>j. 0 \<le> j \<and> j < 0 + length ns \<longrightarrow> task j \<noteq> ''completed''" using a by simp
  have "wait task ?ivs = wait_loop task ?ivs (length ns) (length ns) (map (\<lambda>j. ns ! j * 1000) [0..<length ns])"
    using wait_loop_prefix_run[OF run, of ns bad rest "[]"] by (simp add: wait_def)
  moreover have "map (\<lambda>j. ns ! j * 1000) [0..<length ns] = map (\<lambda>n. n * 1000) ns"
    by (rule nth_equalityI) auto
  moreover have b: "index_or_undefined ?ivs (length ns) = bad"
    by (simp add: index_or_undefined_def nth_append)
  moreover have "task (length ns) \<noteq> ''completed''" using a by simp
  ultimately show "wait task ?ivs
          = Some (map (\<lambda>n. n * 1000) ns,
                  Inl (Exn Error (''pollIntervals['' @ show_nat (length ns)
                         @ ''] is not a valid number: '' @ to_string bad)))"
    using wait_loop_not_number[of task "length ns" ?ivs "length ns" "map (\<lambda>n. n * 1000) ns"] a
    by simp
next
  fix slept e
  assume "ns \<noteq> []"
  then show "wait task (map JNum ns) \<noteq> Some (slept, Inl e)"
    by (rule wait_numbers_never_raise)
qed

theorem wait_raises_on_non_number_witness:
  "wait five_polls [] = Some ([], Inl (Exn Error ''pollIntervals[0] is not a valid number: undefined''))
   \<and> wait five_polls [JNum 1, JStr ''soon'', JNum 3]
       = Some ([1000], Inl (Exn Error ''pollIntervals[1] is not a valid number: soon''))
   \<and> wait five_polls [JNum 0, JNum (- 5)] \<noteq> Some ([], Inl (Exn Error ''negative''))"
proof -
  have h1: "five_polls 0 \<noteq> ''completed''" by (simp add: five_polls_def)
  have h2: "(\<forall>j\<le>length [1 :: int]. five_polls j \<noteq> ''completed'') \<and> typeof (JStr ''soon'') \<noteq> ''number''"
    by (simp add: five_polls_def)
  have h3: "[0, - 5] \<noteq> ([] :: int list)" by simp
  have s1: "show_nat (length [1 :: int]) = ''1''" by code_simp
  note t = wait_raises_on_non_number
             [where task = five_polls and ns = "[1]" and bad = "JStr ''soon''" and rest = "[JNum 3]"]
  note u = wait_raises_on_non_number
             [where task = five_polls and ns = "[0, - 5]"]
  from t h1 have a: "wait five_polls []
      = Some ([], Inl (Exn Error ''pollIntervals[0] is not a valid number: undefined''))"
    by blast
  from t h2 have "wait five_polls (map JNum [1] @ JStr ''soon'' # [JNum 3])
      = Some (map (\<lambda>n. n * 1000) [1],
              Inl (Exn Error (''pollIntervals['' @ show_nat (length [1 :: int])
                     @ ''] is not a valid number: '' @ to_string (JStr ''soon''))))"
    by blast
  then have b: "wait five_polls [JNum 1, JStr ''soon'', JNum 3]
       = Some ([1000], Inl (Exn Error ''pollIntervals[1] is not a valid number: soon''))"
    using s1 by simp
  from u h3 have "wait five_polls (map JNum [0, - 5]) \<noteq> Some ([], Inl (Exn Error ''negative''))"
    by blast
  then have c: "wait five_polls [JNum 0, JNum (- 5)] \<noteq> Some ([], Inl (Exn Error ''negative''))"
    by simp
  from a b c show ?thesis by simp
qed

text \<open>
  Claim C7 as stated fails: intervals of 0 and of -5 seconds are slept on, and \<open>wait\<close>
  resolves without an error.
\<close>

theorem wait_sleeps_on_zero_and_negative:
  "wait (\<lambda>k. if k < 2 then ''running'' else ''completed'') [JNum 0, JNum (- 5)]
     = Some ([0, - 5000], Inr ())"
  by code_simp

end
